theory Spec2Isabelle
  imports Complex_Main
begin

section \<open>The six-max hold'em hand engine (src/lib/PokerHandEngine.ts)\<close>

text \<open>
  The engine is a class whose methods mutate the instance. Here the instance is a record
  and every method is a function from the record to the updated record. A method that can
  throw returns a sum: \<open>Inr s'\<close> when it returns normally, \<open>Inl (e, s')\<close> when it throws
  \<open>e\<close>, where \<open>s'\<close> is the instance as the throw leaves it (the object lives on after the
  exception, so the mutations made before the throw stay visible).

  Chip amounts are JavaScript numbers. They are taken here as exact rationals: every
  comparison and every \<open>Math.min\<close> is the source's, but rounding of the doubles is not
  modelled, and neither are \<open>NaN\<close> and the infinities. The threshold \<open>0.01\<close> is
  \<open>1/100\<close>.

  Each action record of the source also carries an \<open>id\<close> (a fresh UUID) and a
  \<open>timestamp\<close> (the wall clock); both come from the environment, no method reads them, and
  they are left out of \<open>HandAction\<close>. The field \<open>handResult\<close> is only touched by
  \<open>setHandResult\<close>/\<open>getHandResult\<close> and is left out of the instance too.
\<close>

subsection \<open>Data\<close>

datatype Position = SB | BB | UTG | HJ | CO | BTN

datatype ActionType = Fold | Check | Call | Bet | Raise

datatype Phase = Preflop | Flop | Turn | River

datatype error =
    AlreadyFolded Position
  | CannotFoldWhenCheck
  | CannotCheckFacingBet
  | NothingToCall
  | CannotCallZeroStack
  | CannotBetFacingBet
  | BetSizeNotPositive
  | CannotBetZeroStack
  | RaiseSizeNotPositive
  | RaiseNotAboveContribution
  | OnlyForPreflop
  | UsePreflopMethod
  | NotYourTurn Position

record PlayerState =
  position :: Position
  stack :: rat
  contributed :: rat
  totalContributed :: rat
  folded :: bool
  isHero :: bool
  hasActedThisStreet :: bool

record HandAction =
  actPosition :: Position
  action :: ActionType
  betSize :: "rat option"
  potSize :: rat
  actPhase :: Phase

record StreetState =
  phase :: Phase
  pot :: rat
  streetStartingPot :: rat
  currentBet :: rat
  lastAggressorIndex :: "int option"
  actionsThisStreet :: "HandAction list"
  raiseCount :: nat

record Engine =
  players :: "PlayerState list"
  street :: StreetState
  actions :: "HandAction list"
  heroPosition :: "Position option"
  stackSize :: rat
  currentActorIndex :: int
  waitingForBoard :: bool

type_synonym outcome = "(error \<times> Engine) + Engine"

definition POSITION_ORDER :: "Position list" where
  "POSITION_ORDER = [SB, BB, UTG, HJ, CO, BTN]"

definition PREFLOP_START_INDEX :: int where
  "PREFLOP_START_INDEX = 2"

text \<open>\<open>Array.prototype.indexOf\<close>: the first index holding the value, \<open>-1\<close> when absent.\<close>

fun indexOf :: "'a list \<Rightarrow> 'a \<Rightarrow> int" where
  "indexOf [] x = -1"
| "indexOf (y # ys) x =
     (if y = x then 0 else (let r = indexOf ys x in if r = -1 then -1 else r + 1))"

definition getPlayerIndex :: "Position \<Rightarrow> int" where
  "getPlayerIndex pos = indexOf POSITION_ORDER pos"

text \<open>
  \<open>this.players[i]\<close>. Every index the source reads is a seat index \<open>0..5\<close> of the
  six-element array (\<open>getPlayerIndex\<close> of a \<open>Position\<close>, a result of
  \<open>getNextActivePlayerIndex\<close> other than \<open>-1\<close>, or an index that passed the range check
  of \<open>autoFoldBetween\<close>).
\<close>

definition playerAt :: "Engine \<Rightarrow> int \<Rightarrow> PlayerState" where
  "playerAt s i = players s ! nat i"

subsection \<open>Construction\<close>

text \<open>
  \<open>newEngine\<close> is the constructor \<open>new PokerHandEngine(heroPosition, stackSize)\<close>: six
  fresh players in seat order (\<open>initialPlayer\<close> is the object literal of the \<open>map\<close>), the
  two blinds posted (\<open>postBlind\<close> is the three assignments made for a blind), the Preflop
  street state, and UTG to act.
\<close>

definition initialPlayer :: "Position option \<Rightarrow> rat \<Rightarrow> Position \<Rightarrow> PlayerState" where
  "initialPlayer hero stackSz pos =
     \<lparr> position = pos, stack = stackSz, contributed = 0, totalContributed = 0,
       folded = False, isHero = (Some pos = hero), hasActedThisStreet = False \<rparr>"

definition postBlind :: "rat \<Rightarrow> PlayerState \<Rightarrow> PlayerState" where
  "postBlind amount p = p\<lparr> contributed := amount, totalContributed := amount,
                          stack := stack p - amount \<rparr>"

definition newEngine :: "Position option \<Rightarrow> rat \<Rightarrow> Engine" where
  "newEngine hero stackSz =
     (let ps0 = map (initialPlayer hero stackSz) POSITION_ORDER;
          sbIndex = getPlayerIndex SB;
          bbIndex = getPlayerIndex BB;
          ps1 = ps0[nat sbIndex := postBlind (1/2) (ps0 ! nat sbIndex)];
          ps2 = ps1[nat bbIndex := postBlind 1 (ps1 ! nat bbIndex)]
      in \<lparr> players = ps2,
           street = \<lparr> phase = Preflop, pot = 3/2, streetStartingPot = 3/2, currentBet = 1,
                      lastAggressorIndex = None, actionsThisStreet = [], raiseCount = 0 \<rparr>,
           actions = [],
           heroPosition = hero,
           stackSize = stackSz,
           currentActorIndex = PREFLOP_START_INDEX,
           waitingForBoard = False \<rparr>)"

subsection \<open>Seat ring and queries\<close>

text \<open>
  \<open>getNextActivePlayerIndex\<close>: the loop \<open>for (i = 1; i <= 6; i++)\<close> over
  \<open>(startIndex + i) % 6\<close>. At every call site \<open>startIndex\<close> is a seat index, so the
  dividend is not negative and the remainder is the mathematical one.
\<close>

fun nextActiveFrom :: "Engine \<Rightarrow> int \<Rightarrow> int list \<Rightarrow> int" where
  "nextActiveFrom s startIndex [] = -1"
| "nextActiveFrom s startIndex (i # rest) =
     (let idx = (startIndex + i) mod 6; player = playerAt s idx
      in if \<not> folded player \<and> stack player > 1/100 then idx
         else nextActiveFrom s startIndex rest)"

definition getNextActivePlayerIndex :: "Engine \<Rightarrow> int \<Rightarrow> int" where
  "getNextActivePlayerIndex s startIndex = nextActiveFrom s startIndex [1, 2, 3, 4, 5, 6]"

definition getActivePlayerCount :: "Engine \<Rightarrow> nat" where
  "getActivePlayerCount s = length (filter (\<lambda>p. \<not> folded p) (players s))"

definition canCheck :: "Engine \<Rightarrow> Position \<Rightarrow> bool" where
  "canCheck s pos =
     (let player = playerAt s (getPlayerIndex pos)
      in if folded player then False else contributed player \<ge> currentBet (street s))"

definition needsToCall :: "Engine \<Rightarrow> Position \<Rightarrow> bool" where
  "needsToCall s pos =
     (let player = playerAt s (getPlayerIndex pos)
      in if folded player then False else contributed player < currentBet (street s))"

definition getAvailableActions :: "Engine \<Rightarrow> Position \<Rightarrow> ActionType list" where
  "getAvailableActions s pos =
     (let player = playerAt s (getPlayerIndex pos)
      in if folded player then []
         else if stack player < 1/100 then []
         else if canCheck s pos then
           (if phase (street s) \<noteq> Preflop \<and> currentBet (street s) = 0
            then [Check, Bet] else [Check, Raise])
         else [Fold, Call, Raise])"

definition isHandComplete :: "Engine \<Rightarrow> bool" where
  "isHandComplete s =
     (if getActivePlayerCount s \<le> 1 then True
      else if currentActorIndex s = -1 \<and> \<not> waitingForBoard s then True
      else False)"

text \<open>
  \<open>getCurrentActor\<close>: \<open>null\<close> is \<open>None\<close>. When the guard passes the index is a seat
  index; outside \<open>0..5\<close> the array read of the source gives \<open>undefined\<close>, also \<open>None\<close> here.
\<close>

definition getCurrentActor :: "Engine \<Rightarrow> Position option" where
  "getCurrentActor s =
     (if isHandComplete s \<or> waitingForBoard s then None
      else if 0 \<le> currentActorIndex s \<and> currentActorIndex s < int (length POSITION_ORDER)
           then Some (POSITION_ORDER ! nat (currentActorIndex s))
      else None)"

subsection \<open>Recording one action\<close>

text \<open>
  The tail of \<open>recordAction\<close> after the \<open>switch\<close>: mark the player as having acted, add
  the chips to the pot, append the action record to both histories. \<open>player'\<close> and \<open>st'\<close>
  are the player and the street as the \<open>switch\<close> branch left them.
\<close>

definition commitAction ::
  "Position \<Rightarrow> ActionType \<Rightarrow> rat option \<Rightarrow> rat \<Rightarrow> PlayerState \<Rightarrow> StreetState \<Rightarrow> Engine \<Rightarrow> Engine" where
  "commitAction pos actionType actualBetSize amountToAdd player' st' s =
     (let player'' = player'\<lparr> hasActedThisStreet := True \<rparr>;
          st'' = st'\<lparr> pot := pot st' + amountToAdd \<rparr>;
          act = \<lparr> actPosition = pos, action = actionType, betSize = actualBetSize,
                  potSize = pot st'', actPhase = phase st'' \<rparr>
      in s\<lparr> players := (players s)[nat (getPlayerIndex pos) := player''],
            street := st''\<lparr> actionsThisStreet := actionsThisStreet st'' @ [act] \<rparr>,
            actions := actions s @ [act] \<rparr>)"

text \<open>
  \<open>!betSize || betSize <= 0\<close>: true for an omitted size (\<open>undefined\<close>), for zero and for
  a negative size.
\<close>

definition sizeMissingOrNonPositive :: "rat option \<Rightarrow> bool" where
  "sizeMissingOrNonPositive b = (case b of None \<Rightarrow> True | Some v \<Rightarrow> v \<le> 0)"

definition recordAction ::
  "Position \<Rightarrow> ActionType \<Rightarrow> rat option \<Rightarrow> bool \<Rightarrow> Engine \<Rightarrow> outcome" where
  "recordAction pos actionType betSz skipValidation s =
     (let player = playerAt s (getPlayerIndex pos); st = street s
      in if folded player then Inl (AlreadyFolded pos, s)
         else if \<not> skipValidation \<and> actionType = Fold \<and> canCheck s pos \<and> phase st \<noteq> Preflop
           then Inl (CannotFoldWhenCheck, s)
         else (case actionType of
             Fold \<Rightarrow> Inr (commitAction pos Fold betSz 0 (player\<lparr> folded := True \<rparr>) st s)
           | Check \<Rightarrow>
               if contributed player < currentBet st then Inl (CannotCheckFacingBet, s)
               else Inr (commitAction pos Check betSz 0 player st s)
           | Call \<Rightarrow>
               (let callAmount = currentBet st - contributed player
                in if callAmount \<le> 0 then Inl (NothingToCall, s)
                   else (let actualCall = min callAmount (stack player)
                         in if actualCall \<le> 0 then Inl (CannotCallZeroStack, s)
                            else Inr (commitAction pos Call (Some actualCall) actualCall
                                   (player\<lparr> stack := stack player - actualCall,
                                            contributed := contributed player + actualCall,
                                            totalContributed := totalContributed player + actualCall \<rparr>)
                                   st s)))
           | Bet \<Rightarrow>
               if currentBet st > 0 then Inl (CannotBetFacingBet, s)
               else if sizeMissingOrNonPositive betSz then Inl (BetSizeNotPositive, s)
               else (let actualBetSize = min (the betSz) (stack player)
                     in if actualBetSize \<le> 0 then Inl (CannotBetZeroStack, s)
                        else (let player' = player\<lparr> stack := stack player - actualBetSize,
                                        contributed := contributed player + actualBetSize,
                                        totalContributed := totalContributed player + actualBetSize \<rparr>
                              in Inr (commitAction pos Bet (Some actualBetSize) actualBetSize player'
                                   (st\<lparr> currentBet := contributed player',
                                        lastAggressorIndex := Some (getPlayerIndex pos),
                                        raiseCount := raiseCount st + 1 \<rparr>) s)))
           | Raise \<Rightarrow>
               if sizeMissingOrNonPositive betSz then Inl (RaiseSizeNotPositive, s)
               else (let maxAvailable = stack player + contributed player;
                         raiseTotal = min (the betSz) maxAvailable;
                         additionalAmount = raiseTotal - contributed player
                     in if additionalAmount \<le> 0 then Inl (RaiseNotAboveContribution, s)
                        else (let actualAdditional = min additionalAmount (stack player);
                                  player' = player\<lparr> stack := stack player - actualAdditional,
                                        contributed := contributed player + actualAdditional,
                                        totalContributed := totalContributed player + actualAdditional \<rparr>
                              in Inr (commitAction pos Raise (Some actualAdditional) actualAdditional
                                   player'
                                   (st\<lparr> currentBet := contributed player',
                                        lastAggressorIndex := Some (getPlayerIndex pos),
                                        raiseCount := raiseCount st + 1 \<rparr>) s)))))"

subsection \<open>Street completion\<close>

definition isStreetComplete :: "Engine \<Rightarrow> int \<Rightarrow> bool" where
  "isStreetComplete s nextIndex =
     (let st = street s;
          activePlayers = filter (\<lambda>p. \<not> folded p) (players s);
          activeCount = length activePlayers
      in if activeCount \<le> 1 then True
         else (let playersWhoCanAct = filter (\<lambda>p. stack p > 1/100) activePlayers
           in if length playersWhoCanAct = 0 then True
              else (let allActablePlayersActed = list_all hasActedThisStreet playersWhoCanAct
                in if \<not> allActablePlayersActed then False
                   else (let allMatched =
                               list_all (\<lambda>p. contributed p \<ge> currentBet st \<or> stack p < 1/100)
                                 activePlayers
                     in if \<not> allMatched then False
                        else if phase st = Preflop then
                          (if length playersWhoCanAct = 0 then True
                           else (let bbPlayer = playerAt s (getPlayerIndex BB)
                             in if \<not> folded bbPlayer \<and> raiseCount st = 0 then
                                  (if \<not> hasActedThisStreet bbPlayer \<and> stack bbPlayer > 1/100
                                   then False else True)
                                else (case lastAggressorIndex st of
                                    None \<Rightarrow> False
                                  | Some la \<Rightarrow>
                                      if allActablePlayersActed \<and> allMatched then
                                        (if stack (playerAt s la) < 1/100 then True
                                         else if nextIndex = la then True
                                         else False)
                                      else False)))
                        else
                          (if allActablePlayersActed \<and> allMatched then
                             (if currentBet st = 0 \<and> lastAggressorIndex st = None then True
                              else (case lastAggressorIndex st of
                                  None \<Rightarrow> False
                                | Some la \<Rightarrow>
                                    if stack (playerAt s la) < 1/100 then True
                                    else if nextIndex = la then True
                                    else False))
                           else False)))))"

subsection \<open>Street transition and the board gate\<close>

definition setPostflopFirstActor :: "Engine \<Rightarrow> Engine" where
  "setPostflopFirstActor s =
     (let playersWhoCanAct = filter (\<lambda>p. \<not> folded p \<and> stack p > 1/100) (players s)
      in if length playersWhoCanAct = 0 then
           (if phase (street s) \<noteq> River
            then s\<lparr> currentActorIndex := -1, waitingForBoard := True \<rparr>
            else s\<lparr> currentActorIndex := -1, waitingForBoard := True \<rparr>)
         else (let sbIndex = getPlayerIndex SB; sbPlayer = playerAt s sbIndex
           in if \<not> folded sbPlayer \<and> stack sbPlayer > 1/100 then s\<lparr> currentActorIndex := sbIndex \<rparr>
              else (let nextIndex = getNextActivePlayerIndex s sbIndex
                in if nextIndex = -1
                   then s\<lparr> currentActorIndex := -1, waitingForBoard := True \<rparr>
                   else s\<lparr> currentActorIndex := nextIndex \<rparr>)))"

definition phaseOrder :: "Phase list" where
  "phaseOrder = [Preflop, Flop, Turn, River]"

definition prepareNextStreet :: "Engine \<Rightarrow> Engine" where
  "prepareNextStreet s =
     (let s1 = s\<lparr> players := map (\<lambda>p. p\<lparr> contributed := 0, hasActedThisStreet := False \<rparr>)
                                 (players s) \<rparr>;
          currentPhaseIndex = indexOf phaseOrder (phase (street s1))
      in if currentPhaseIndex \<ge> int (length phaseOrder) - 1 then s1\<lparr> currentActorIndex := -1 \<rparr>
         else (let nextPhase = phaseOrder ! nat (currentPhaseIndex + 1)
           in setPostflopFirstActor
                (s1\<lparr> street := (street s1)\<lparr> phase := nextPhase,
                                             streetStartingPot := pot (street s1),
                                             currentBet := 0,
                                             lastAggressorIndex := None,
                                             actionsThisStreet := [],
                                             raiseCount := 0 \<rparr> \<rparr>)))"

definition advanceToNextActor :: "Engine \<Rightarrow> Engine" where
  "advanceToNextActor s =
     (if getActivePlayerCount s \<le> 1 then s\<lparr> currentActorIndex := -1 \<rparr>
      else (let nextIndex = getNextActivePlayerIndex s (currentActorIndex s);
                checkIndex = (if nextIndex = -1 then currentActorIndex s else nextIndex)
        in if isStreetComplete s checkIndex then
             (if phase (street s) = River then s\<lparr> currentActorIndex := -1 \<rparr>
              else prepareNextStreet (s\<lparr> waitingForBoard := True \<rparr>))
           else if nextIndex = -1 then s\<lparr> currentActorIndex := -1 \<rparr>
           else s\<lparr> currentActorIndex := nextIndex \<rparr>))"

definition confirmBoard :: "Engine \<Rightarrow> Engine" where
  "confirmBoard s =
     (if \<not> waitingForBoard s then s
      else (let playersWhoCanAct = filter (\<lambda>p. \<not> folded p \<and> stack p > 1/100) (players s)
        in if phase (street s) = River then
             (if length playersWhoCanAct = 0
              then s\<lparr> currentActorIndex := -1, waitingForBoard := False \<rparr>
              else s\<lparr> waitingForBoard := False \<rparr>)
           else if length playersWhoCanAct > 0 then s\<lparr> waitingForBoard := False \<rparr>
           else s))"

subsection \<open>The two entry points for actions\<close>

text \<open>
  The \<open>while (idx !== endIndex)\<close> loop of \<open>autoFoldBetween\<close>, with its visited set, its
  range check and its two \<open>break\<close>s. It ends because every pass adds a seat index that was
  not yet in the visited set.
\<close>

function autoFoldLoop :: "int \<Rightarrow> int \<Rightarrow> int set \<Rightarrow> Engine \<Rightarrow> outcome" where
  "autoFoldLoop idx endIndex processedIndices s =
     (if idx = endIndex then Inr s
      else if idx \<in> processedIndices then Inr s
      else if idx < 0 \<or> idx \<ge> int (length (players s)) then Inr s
      else (case (if \<not> folded (playerAt s idx)
                  then recordAction (POSITION_ORDER ! nat idx) Fold None True s
                  else Inr s) of
          Inl thrown \<Rightarrow> Inl thrown
        | Inr s1 \<Rightarrow>
            (let nextIdx = getNextActivePlayerIndex s1 idx
             in if nextIdx = -1 \<or> nextIdx = idx then Inr s1
                else autoFoldLoop nextIdx endIndex (insert idx processedIndices) s1)))"
  by pat_completeness auto
termination
proof (relation "measure (\<lambda>(idx, endIndex, processedIndices, s).
          length (players s) - card {i \<in> processedIndices. 0 \<le> i \<and> i < int (length (players s))})")
  show "wf (measure (\<lambda>(idx, endIndex, processedIndices, s).
          length (players s) - card {i \<in> processedIndices. 0 \<le> i \<and> i < int (length (players s))}))"
    by simp
next
  fix idx endIndex :: int and processedIndices :: "int set" and s s1 :: Engine and nextIdx :: int
  assume fresh: "idx \<notin> processedIndices"
    and inRange: "\<not> (idx < 0 \<or> int (length (players s)) \<le> idx)"
    and step: "(if \<not> folded (playerAt s idx)
                then recordAction (POSITION_ORDER ! nat idx) Fold None True s
                else Inr s) = Inr s1"
  let ?n = "length (players s)"
  let ?old = "{i \<in> processedIndices. 0 \<le> i \<and> i < int ?n}"
  let ?new = "{i \<in> insert idx processedIndices. 0 \<le> i \<and> i < int ?n}"
  have len: "length (players s1) = ?n"
    using step by (auto simp: recordAction_def commitAction_def Let_def split: if_splits)
  have fin: "finite ?old" by simp
  have new: "?new = insert idx ?old" using inRange by auto
  have sub: "?new \<subseteq> {0..<int ?n}" by auto
  have "card ?new \<le> card {0..<int ?n}" by (rule card_mono) (use sub in auto)
  hence bound: "card ?new \<le> ?n" by simp
  have notin: "idx \<notin> ?old" using fresh by simp
  have "card (insert idx ?old) = Suc (card ?old)"
    using fin notin by (rule card_insert_disjoint)
  hence "card ?new = Suc (card ?old)" by (simp only: new)
  with bound have "?n - card ?new < ?n - card ?old" by linarith
  thus "((nextIdx, endIndex, insert idx processedIndices, s1), (idx, endIndex, processedIndices, s))
        \<in> measure (\<lambda>(idx, endIndex, processedIndices, s).
          length (players s) - card {i \<in> processedIndices. 0 \<le> i \<and> i < int (length (players s))})"
    by (simp add: len)
qed

declare autoFoldLoop.simps [simp del]

definition autoFoldBetween :: "int \<Rightarrow> int \<Rightarrow> Engine \<Rightarrow> outcome" where
  "autoFoldBetween startIndex endIndex s = autoFoldLoop startIndex endIndex {} s"

definition addPreflopAction :: "Position \<Rightarrow> ActionType \<Rightarrow> rat option \<Rightarrow> Engine \<Rightarrow> outcome" where
  "addPreflopAction pos actionType betSz s =
     (if phase (street s) \<noteq> Preflop then Inl (OnlyForPreflop, s)
      else (let actorIndex = getPlayerIndex pos; currentIndex = currentActorIndex s
        in case (if actorIndex \<noteq> currentIndex then autoFoldBetween currentIndex actorIndex s
                 else Inr s) of
            Inl thrown \<Rightarrow> Inl thrown
          | Inr s1 \<Rightarrow>
              (case recordAction pos actionType betSz False (s1\<lparr> currentActorIndex := actorIndex \<rparr>) of
                  Inl thrown \<Rightarrow> Inl thrown
                | Inr s2 \<Rightarrow> Inr (advanceToNextActor s2))))"

definition addPostflopAction :: "Position \<Rightarrow> ActionType \<Rightarrow> rat option \<Rightarrow> Engine \<Rightarrow> outcome" where
  "addPostflopAction pos actionType betSz s =
     (if phase (street s) = Preflop then Inl (UsePreflopMethod, s)
      else if getPlayerIndex pos \<noteq> currentActorIndex s then Inl (NotYourTurn pos, s)
      else (case recordAction pos actionType betSz False s of
          Inl thrown \<Rightarrow> Inl thrown
        | Inr s1 \<Rightarrow> Inr (advanceToNextActor s1)))"

text \<open>The instance a call leaves behind, whether it returned or threw.\<close>

definition stateAfter :: "outcome \<Rightarrow> Engine" where
  "stateAfter r = (case r of Inl (e, s) \<Rightarrow> s | Inr s \<Rightarrow> s)"

definition threw :: "outcome \<Rightarrow> bool" where
  "threw r = (case r of Inl x \<Rightarrow> True | Inr s \<Rightarrow> False)"

subsection \<open>Callers and reachable instances\<close>

text \<open>
  What a caller can do with an instance: the two action methods and \<open>confirmBoard\<close>. An
  instance is reachable when it is a freshly constructed one or what a call (returning or
  throwing) leaves of a reachable one.
\<close>

datatype command =
    AddPreflopAction Position ActionType "rat option"
  | AddPostflopAction Position ActionType "rat option"
  | ConfirmBoard

fun perform :: "command \<Rightarrow> Engine \<Rightarrow> outcome" where
  "perform (AddPreflopAction pos actionType betSz) s = addPreflopAction pos actionType betSz s"
| "perform (AddPostflopAction pos actionType betSz) s = addPostflopAction pos actionType betSz s"
| "perform ConfirmBoard s = Inr (confirmBoard s)"

fun performAll :: "command list \<Rightarrow> Engine \<Rightarrow> Engine" where
  "performAll [] s = s"
| "performAll (c # cs) s = performAll cs (stateAfter (perform c s))"



subsection \<open>Vocabulary for the skip\<close>

text \<open>
  A seat can act when it is not folded and has more than 0.01 behind: the test of
  \<open>getNextActivePlayerIndex\<close>.
\<close>

definition canActAt :: "Engine \<Rightarrow> int \<Rightarrow> bool" where
  "canActAt s i = (\<not> folded (playerAt s i) \<and> stack (playerAt s i) > 1/100)"

text \<open>
  Seat \<open>i\<close> lies on the clockwise walk that starts at \<open>fromIndex\<close> (inclusive) and ends
  at \<open>toIndex\<close> (exclusive): it is fewer steps away from \<open>fromIndex\<close> than \<open>toIndex\<close> is.
\<close>

definition betweenClockwise :: "int \<Rightarrow> int \<Rightarrow> int \<Rightarrow> bool" where
  "betweenClockwise fromIndex toIndex i = ((i - fromIndex) mod 6 < (toIndex - fromIndex) mod 6)"

text \<open>
  What the skip loop started at \<open>idx\<close> with end \<open>e\<close> makes of an instance \<open>t\<close>: stacks
  stay, folded seats stay folded, the start seat and every seat with chips on the walk from
  \<open>idx\<close> to \<open>e\<close> is folded, a seat folded by the loop is the start seat or had chips and is
  never \<open>e\<close>, and when \<open>e\<close> can act nothing off the walk changes.
\<close>

definition skipPost :: "int \<Rightarrow> int \<Rightarrow> Engine \<Rightarrow> Engine \<Rightarrow> bool" where
  "skipPost idx e t t' =
     (length (players t') = 6
      \<and> (\<forall>j. stack (playerAt t' j) = stack (playerAt t j))
      \<and> (\<forall>j. folded (playerAt t j) \<longrightarrow> folded (playerAt t' j))
      \<and> (\<forall>d. 0 \<le> d \<and> d < (e - idx) mod 6
               \<and> (d = 0 \<or> stack (playerAt t ((idx + d) mod 6)) > 1/100)
             \<longrightarrow> folded (playerAt t' ((idx + d) mod 6)))
      \<and> (\<forall>j. 0 \<le> j \<and> j < 6 \<and> folded (playerAt t' j) \<and> \<not> folded (playerAt t j)
             \<longrightarrow> j \<noteq> e \<and> (j = idx \<or> stack (playerAt t j) > 1/100))
      \<and> (canActAt t e \<longrightarrow>
            (\<forall>j. 0 \<le> j \<and> j < 6 \<and> \<not> (j - idx) mod 6 < (e - idx) mod 6
               \<longrightarrow> folded (playerAt t' j) = folded (playerAt t j))))"

subsection \<open>Hands used as concrete inputs\<close>

definition freshHand :: Engine where
  "freshHand = newEngine (Some BTN) 100"

text \<open>Scenario A: on a fresh hand the button raises to 3 out of turn.\<close>

definition skipRaiseHand :: Engine where
  "skipRaiseHand = stateAfter (addPreflopAction BTN Raise (Some 3) freshHand)"

text \<open>Scenario C: hero is the big blind and the five other seats limp.\<close>

definition limpedHand :: Engine where
  "limpedHand =
     performAll [AddPreflopAction UTG Call None, AddPreflopAction HJ Call None,
                 AddPreflopAction CO Call None, AddPreflopAction BTN Call None,
                 AddPreflopAction SB Call None]
       (newEngine (Some BB) 100)"

text \<open>UTG moves all-in for 100 and the big blind calls: a full preflop all-in.\<close>

definition allInHand :: Engine where
  "allInHand =
     performAll [AddPreflopAction UTG Raise (Some 100), AddPreflopAction BB Call None]
       (newEngine (Some UTG) 100)"


text \<open>
  UTG limps, HJ moves all-in, CO calls all-in, the button and both blinds fold: the turn
  is back at UTG, with the all-in HJ seated between UTG and CO.
\<close>

definition squeezedHand :: Engine where
  "squeezedHand =
     performAll [AddPreflopAction UTG Call None, AddPreflopAction HJ Raise (Some 100),
                 AddPreflopAction CO Call None, AddPreflopAction BTN Fold None,
                 AddPreflopAction SB Fold None, AddPreflopAction BB Fold None]
       (newEngine None 100)"

section \<open>Properties\<close>

subsection \<open>Seat indices\<close>

lemma getPlayerIndex_simps [simp]:
  "getPlayerIndex SB = 0" "getPlayerIndex BB = 1" "getPlayerIndex UTG = 2"
  "getPlayerIndex HJ = 3" "getPlayerIndex CO = 4" "getPlayerIndex BTN = 5"
  by (simp_all add: getPlayerIndex_def POSITION_ORDER_def)

lemma getPlayerIndex_range: "0 \<le> getPlayerIndex pos \<and> getPlayerIndex pos < 6"
  by (cases pos) simp_all

lemma nat_getPlayerIndex_less: "nat (getPlayerIndex pos) < 6"
  by (cases pos) simp_all

lemma position_of_index:
  "0 \<le> i \<Longrightarrow> i < 6 \<Longrightarrow> getPlayerIndex (POSITION_ORDER ! nat i) = i"
proof -
  assume "0 \<le> i" "i < 6"
  then have "i = 0 \<or> i = 1 \<or> i = 2 \<or> i = 3 \<or> i = 4 \<or> i = 5" by arith
  then show ?thesis by (auto simp: POSITION_ORDER_def)
qed

lemma nth_update_cases: "(xs[i := x]) ! k = (if i = k \<and> i < length xs then x else xs ! k)"
  by (cases "i < length xs") (auto simp: nth_list_update list_update_beyond not_less)

subsection \<open>What recording an action touches\<close>

lemma recordAction_throw_unchanged:
  "recordAction pos actionType betSz skipValidation s = Inl (e, s') \<Longrightarrow> s' = s"
  by (cases actionType)
     (auto simp: recordAction_def Let_def split: if_splits)

lemma recordAction_frame:
  assumes "recordAction pos actionType betSz skipValidation s = Inr s'"
  shows "length (players s') = length (players s)"
    and "phase (street s') = phase (street s)"
    and "streetStartingPot (street s') = streetStartingPot (street s)"
    and "currentActorIndex s' = currentActorIndex s"
    and "waitingForBoard s' = waitingForBoard s"
  using assms
  by (cases actionType; auto simp: recordAction_def commitAction_def Let_def split: if_splits)+

lemma recordAction_folded_mono:
  assumes "recordAction pos actionType betSz skipValidation s = Inr s'"
    and "folded (players s ! k)"
  shows "folded (players s' ! k)"
  using assms
  by (cases actionType;
      auto simp: recordAction_def commitAction_def Let_def playerAt_def nth_update_cases
           split: if_splits)

lemma recordAction_folded_throws:
  "folded (playerAt s (getPlayerIndex pos)) \<Longrightarrow>
   recordAction pos actionType betSz skipValidation s = Inl (AlreadyFolded pos, s)"
  by (simp add: recordAction_def Let_def)

lemma recordAction_skip_fold_returns:
  assumes "length (players s) = 6" "0 \<le> i" "i < 6" "\<not> folded (playerAt s i)"
  shows "\<exists>s1. recordAction (POSITION_ORDER ! nat i) Fold None True s = Inr s1"
  using assms by (simp add: recordAction_def Let_def position_of_index)

subsection \<open>The skip loop returns and keeps what every recorded fold keeps\<close>

lemma autoFoldLoop_preserves:
  assumes foldStep: "\<And>t i t'. I t \<Longrightarrow> length (players t) = 6 \<Longrightarrow>
             recordAction (POSITION_ORDER ! nat i) Fold None True t = Inr t' \<Longrightarrow> I t'"
  shows "length (players s) = 6 \<Longrightarrow> I s \<Longrightarrow>
         \<exists>s'. autoFoldLoop idx endIndex processed s = Inr s' \<and> length (players s') = 6 \<and> I s'"
proof (induction idx endIndex processed s rule: autoFoldLoop.induct)
  case (1 idx endIndex processed s)
  note six = \<open>length (players s) = 6\<close> and inv = \<open>I s\<close>
  show ?case
  proof (cases "idx = endIndex \<or> idx \<in> processed \<or> idx < 0 \<or> idx \<ge> 6")
    case True
    then show ?thesis using six inv
      by (subst autoFoldLoop.simps) auto
  next
    case False
    hence ne: "idx \<noteq> endIndex" and unseen: "idx \<notin> processed"
      and rng: "\<not> (idx < 0 \<or> int (length (players s)) \<le> idx)" and lo: "0 \<le> idx" and hi: "idx < 6"
      using six by auto
    obtain s1 where s1: "(if \<not> folded (playerAt s idx)
                then recordAction (POSITION_ORDER ! nat idx) Fold None True s
                else Inr s) = Inr s1"
      using recordAction_skip_fold_returns [OF six lo hi] by (cases "folded (playerAt s idx)") auto
    have six1: "length (players s1) = 6"
      using s1 six recordAction_frame(1) by (auto split: if_splits)
    have inv1: "I s1"
      using s1 inv six foldStep by (auto split: if_splits)
    show ?thesis
    proof (cases "getNextActivePlayerIndex s1 idx = -1 \<or> getNextActivePlayerIndex s1 idx = idx")
      case True
      then show ?thesis using ne unseen rng s1 six1 inv1
        by (subst autoFoldLoop.simps) (auto simp: Let_def)
    next
      case stop: False
      from "1.IH" [OF ne unseen rng s1 refl stop six1 inv1]
      obtain s' where "autoFoldLoop (getNextActivePlayerIndex s1 idx) endIndex (insert idx processed) s1 = Inr s'"
        "length (players s') = 6" "I s'" by blast
      then show ?thesis using ne unseen rng s1 stop
        by (subst autoFoldLoop.simps) (auto simp: Let_def)
    qed
  qed
qed

subsection \<open>The board gate outside AwaitingBoard\<close>

text \<open>
  C9. When the engine is not awaiting board confirmation (\<open>waitingForBoard = false\<close>),
  \<open>confirmBoard()\<close> changes nothing: the whole instance after the call equals the instance
  before it.
\<close>

theorem confirmBoard_not_waiting_noop: "\<not> waitingForBoard s \<Longrightarrow> confirmBoard s = s"
  by (simp add: confirmBoard_def)

theorem confirmBoard_not_waiting_noop_witness:
  "\<not> waitingForBoard freshHand \<and> confirmBoard freshHand = freshHand"
proof -
  have notWaiting: "\<not> waitingForBoard freshHand" by code_simp
  from confirmBoard_not_waiting_noop [OF notWaiting] notWaiting show ?thesis by blast
qed

subsection \<open>The legal action set\<close>

text \<open>
  C10. \<open>getAvailableActions(seat)\<close> has no \<open>throw\<close> and reads only the seat's own entry, so
  it always returns a list. For a folded seat or a seat with stack below 0.01 the list is
  empty. For a seat that is not folded and has stack at least 0.01 the list is
  \<open>[Check, Bet]\<close> or \<open>[Check, Raise]\<close> when the seat's contribution has reached
  \<open>currentBet\<close> (\<open>Bet\<close> exactly when the phase is postflop and \<open>currentBet = 0\<close>), and
  \<open>[Fold, Call, Raise]\<close> otherwise.
\<close>

theorem getAvailableActions_spec:
  "(folded (playerAt s (getPlayerIndex pos)) \<or> stack (playerAt s (getPlayerIndex pos)) < 1/100
      \<longrightarrow> getAvailableActions s pos = [])
   \<and> (\<not> folded (playerAt s (getPlayerIndex pos)) \<and> stack (playerAt s (getPlayerIndex pos)) \<ge> 1/100
        \<and> contributed (playerAt s (getPlayerIndex pos)) \<ge> currentBet (street s)
      \<longrightarrow> getAvailableActions s pos =
            (if phase (street s) \<noteq> Preflop \<and> currentBet (street s) = 0
             then [Check, Bet] else [Check, Raise]))
   \<and> (\<not> folded (playerAt s (getPlayerIndex pos)) \<and> stack (playerAt s (getPlayerIndex pos)) \<ge> 1/100
        \<and> contributed (playerAt s (getPlayerIndex pos)) < currentBet (street s)
      \<longrightarrow> getAvailableActions s pos = [Fold, Call, Raise])"
  by (simp add: getAvailableActions_def canCheck_def Let_def)

theorem getAvailableActions_spec_witness:
  "folded (playerAt skipRaiseHand (getPlayerIndex UTG))
   \<and> getAvailableActions skipRaiseHand UTG = []
   \<and> stack (playerAt allInHand (getPlayerIndex BB)) < 1/100
   \<and> getAvailableActions allInHand BB = []
   \<and> \<not> folded (playerAt limpedHand (getPlayerIndex BB))
   \<and> stack (playerAt limpedHand (getPlayerIndex BB)) \<ge> 1/100
   \<and> contributed (playerAt limpedHand (getPlayerIndex BB)) \<ge> currentBet (street limpedHand)
   \<and> getAvailableActions limpedHand BB = [Check, Raise]
   \<and> \<not> folded (playerAt skipRaiseHand (getPlayerIndex SB))
   \<and> stack (playerAt skipRaiseHand (getPlayerIndex SB)) \<ge> 1/100
   \<and> contributed (playerAt skipRaiseHand (getPlayerIndex SB)) < currentBet (street skipRaiseHand)
   \<and> getAvailableActions skipRaiseHand SB = [Fold, Call, Raise]"
proof -
  have utgFolded: "folded (playerAt skipRaiseHand (getPlayerIndex UTG))" by code_simp
  have bbAllIn: "stack (playerAt allInHand (getPlayerIndex BB)) < 1/100" by code_simp
  have bbOption: "\<not> folded (playerAt limpedHand (getPlayerIndex BB))
     \<and> stack (playerAt limpedHand (getPlayerIndex BB)) \<ge> 1/100
     \<and> contributed (playerAt limpedHand (getPlayerIndex BB)) \<ge> currentBet (street limpedHand)"
    by code_simp
  have bbPhase: "phase (street limpedHand) = Preflop" by code_simp
  have sbFacing: "\<not> folded (playerAt skipRaiseHand (getPlayerIndex SB))
     \<and> stack (playerAt skipRaiseHand (getPlayerIndex SB)) \<ge> 1/100
     \<and> contributed (playerAt skipRaiseHand (getPlayerIndex SB)) < currentBet (street skipRaiseHand)"
    by code_simp
  from getAvailableActions_spec [of skipRaiseHand UTG] utgFolded
  have r1: "getAvailableActions skipRaiseHand UTG = []" by blast
  from getAvailableActions_spec [of allInHand BB] bbAllIn
  have r2: "getAvailableActions allInHand BB = []" by blast
  from getAvailableActions_spec [of limpedHand BB] bbOption bbPhase
  have r3: "getAvailableActions limpedHand BB = [Check, Raise]" by simp
  from getAvailableActions_spec [of skipRaiseHand SB] sbFacing
  have r4: "getAvailableActions skipRaiseHand SB = [Fold, Call, Raise]" by blast
  from utgFolded bbAllIn bbOption sbFacing r1 r2 r3 r4 show ?thesis by blast
qed

subsection \<open>Raise\<close>



subsection \<open>What the street machinery touches\<close>

lemma setPostflopFirstActor_frame [simp]:
  "players (setPostflopFirstActor s) = players s"
  "street (setPostflopFirstActor s) = street s"
  by (simp_all add: setPostflopFirstActor_def Let_def)

lemma next_phase_not_Preflop:
  "indexOf phaseOrder ph < int (length phaseOrder) - 1 \<Longrightarrow>
   phaseOrder ! nat (indexOf phaseOrder ph + 1) \<noteq> Preflop"
  by (cases ph) (simp_all add: phaseOrder_def)

lemma last_phase_is_River:
  "(indexOf phaseOrder ph \<ge> int (length phaseOrder) - 1) = (ph = River)"
  by (cases ph) (simp_all add: phaseOrder_def)

lemma prepareNextStreet_length [simp]:
  "length (players (prepareNextStreet s)) = length (players s)"
  by (simp add: prepareNextStreet_def Let_def)

lemma prepareNextStreet_folded:
  "k < length (players s) \<Longrightarrow> folded (players (prepareNextStreet s) ! k) = folded (players s ! k)"
  by (simp add: prepareNextStreet_def Let_def)

lemma advanceToNextActor_length [simp]:
  "length (players (advanceToNextActor s)) = length (players s)"
  by (simp add: advanceToNextActor_def Let_def)

lemma advanceToNextActor_folded:
  "k < length (players s) \<Longrightarrow>
   folded (players (advanceToNextActor s) ! k) = folded (players s ! k)"
  by (simp add: advanceToNextActor_def Let_def prepareNextStreet_folded)

lemma confirmBoard_players [simp]: "players (confirmBoard s) = players s"
  by (simp add: confirmBoard_def Let_def)

lemma confirmBoard_street [simp]: "street (confirmBoard s) = street s"
  by (simp add: confirmBoard_def Let_def)

lemma autoFoldBetween_preserves:
  assumes foldStep: "\<And>t i t'. I t \<Longrightarrow> length (players t) = 6 \<Longrightarrow>
             recordAction (POSITION_ORDER ! nat i) Fold None True t = Inr t' \<Longrightarrow> I t'"
    and "length (players s) = 6" "I s"
  shows "\<exists>s'. autoFoldBetween startIndex endIndex s = Inr s' \<and> length (players s') = 6 \<and> I s'"
  unfolding autoFoldBetween_def
  using autoFoldLoop_preserves [of I s startIndex endIndex "{}"] assms by blast

lemma perform_preserves:
  assumes rec: "\<And>t pos a b sk t'. I t \<Longrightarrow> length (players t) = 6 \<Longrightarrow>
                  recordAction pos a b sk t = Inr t' \<Longrightarrow> I t'"
      and adv: "\<And>t. I t \<Longrightarrow> length (players t) = 6 \<Longrightarrow> I (advanceToNextActor t)"
      and actor: "\<And>t i. I t \<Longrightarrow> I (t\<lparr>currentActorIndex := i\<rparr>)"
      and board: "\<And>t. I t \<Longrightarrow> length (players t) = 6 \<Longrightarrow> I (confirmBoard t)"
      and six: "length (players s) = 6" and inv: "I s"
  shows "length (players (stateAfter (perform c s))) = 6 \<and> I (stateAfter (perform c s))"
proof (cases c)
  case (AddPreflopAction pos a b)
  show ?thesis
  proof (cases "phase (street s) \<noteq> Preflop")
    case True
    then show ?thesis using AddPreflopAction six inv
      by (simp add: addPreflopAction_def stateAfter_def)
  next
    case False
    obtain s1 where s1: "(if getPlayerIndex pos \<noteq> currentActorIndex s
                 then autoFoldBetween (currentActorIndex s) (getPlayerIndex pos) s
                 else Inr s) = Inr s1" and six1: "length (players s1) = 6" and inv1: "I s1"
      using autoFoldBetween_preserves [of I s "currentActorIndex s" "getPlayerIndex pos"] rec six inv
      by (cases "getPlayerIndex pos \<noteq> currentActorIndex s") auto
    let ?s2 = "s1\<lparr>currentActorIndex := getPlayerIndex pos\<rparr>"
    have six2: "length (players ?s2) = 6" using six1 by simp
    have inv2: "I ?s2" using inv1 actor by simp
    show ?thesis
    proof (cases "recordAction pos a b False ?s2")
      case (Inl thrown)
      then obtain e s3 where "recordAction pos a b False ?s2 = Inl (e, s3)" by (cases thrown) auto
      moreover from this have "s3 = ?s2" by (rule recordAction_throw_unchanged)
      ultimately show ?thesis using AddPreflopAction False s1 six2 inv2
        by (simp add: addPreflopAction_def stateAfter_def Let_def)
    next
      case (Inr s3)
      have "length (players s3) = 6" using recordAction_frame(1) [OF Inr] six2 by simp
      moreover have "I s3" using rec [OF inv2 six2 Inr] .
      ultimately show ?thesis using AddPreflopAction False s1 Inr adv
        by (simp add: addPreflopAction_def stateAfter_def Let_def)
    qed
  qed
next
  case (AddPostflopAction pos a b)
  show ?thesis
  proof (cases "recordAction pos a b False s")
    case (Inl thrown)
    then obtain e s3 where "recordAction pos a b False s = Inl (e, s3)" by (cases thrown) auto
    moreover from this have "s3 = s" by (rule recordAction_throw_unchanged)
    ultimately show ?thesis using AddPostflopAction six inv
      by (simp add: addPostflopAction_def stateAfter_def)
  next
    case (Inr s3)
    have "length (players s3) = 6" using recordAction_frame(1) [OF Inr] six by simp
    moreover have "I s3" using rec [OF inv six Inr] .
    ultimately show ?thesis using AddPostflopAction Inr adv six inv
      by (simp add: addPostflopAction_def stateAfter_def)
  qed
next
  case ConfirmBoard
  then show ?thesis using six inv board by (simp add: stateAfter_def)
qed

lemma performAll_preserves:
  assumes rec: "\<And>t pos a b sk t'. I t \<Longrightarrow> length (players t) = 6 \<Longrightarrow>
                  recordAction pos a b sk t = Inr t' \<Longrightarrow> I t'"
      and adv: "\<And>t. I t \<Longrightarrow> length (players t) = 6 \<Longrightarrow> I (advanceToNextActor t)"
      and actor: "\<And>t i. I t \<Longrightarrow> I (t\<lparr>currentActorIndex := i\<rparr>)"
      and board: "\<And>t. I t \<Longrightarrow> length (players t) = 6 \<Longrightarrow> I (confirmBoard t)"
  shows "length (players s) = 6 \<Longrightarrow> I s \<Longrightarrow>
         length (players (performAll cs s)) = 6 \<and> I (performAll cs s)"
proof (induction cs arbitrary: s)
  case Nil
  then show ?case by simp
next
  case (Cons c cs)
  have "length (players (stateAfter (perform c s))) = 6 \<and> I (stateAfter (perform c s))"
  proof (rule perform_preserves [where I = I])
    fix t pos a b sk t'
    assume "I t" "length (players t) = 6" "recordAction pos a b sk t = Inr t'"
    then show "I t'" by (rule rec)
  next
    fix t assume "I t" "length (players t) = 6"
    then show "I (advanceToNextActor t)" by (rule adv)
  next
    fix t i assume "I t"
    then show "I (t\<lparr>currentActorIndex := i\<rparr>)" by (rule actor)
  next
    fix t assume "I t" "length (players t) = 6"
    then show "I (confirmBoard t)" by (rule board)
  qed (use Cons.prems in simp_all)
  then have "length (players (stateAfter (perform c s))) = 6" "I (stateAfter (perform c s))"
    by blast+
  from Cons.IH [OF this] show ?case by simp
qed

subsection \<open>Folded seats\<close>

lemma addPreflopAction_folded_throws:
  assumes six: "length (players s) = 6" and out: "folded (playerAt s (getPlayerIndex pos))"
  shows "threw (addPreflopAction pos a b s)"
proof (cases "phase (street s) \<noteq> Preflop")
  case True
  then show ?thesis by (simp add: addPreflopAction_def threw_def)
next
  case False
  let ?I = "\<lambda>t::Engine. folded (players t ! nat (getPlayerIndex pos))"
  have start: "?I s" using out by (simp add: playerAt_def)
  obtain s1 where s1: "(if getPlayerIndex pos \<noteq> currentActorIndex s
               then autoFoldBetween (currentActorIndex s) (getPlayerIndex pos) s
               else Inr s) = Inr s1" and inv1: "?I s1"
    using autoFoldBetween_preserves [of ?I s "currentActorIndex s" "getPlayerIndex pos"]
          recordAction_folded_mono six start
    by (cases "getPlayerIndex pos \<noteq> currentActorIndex s") auto
  have "folded (playerAt (s1\<lparr>currentActorIndex := getPlayerIndex pos\<rparr>) (getPlayerIndex pos))"
    using inv1 by (simp add: playerAt_def)
  from recordAction_folded_throws [OF this]
  show ?thesis using False s1
    by (simp add: addPreflopAction_def threw_def Let_def)
qed

lemma addPostflopAction_folded_throws:
  assumes out: "folded (playerAt s (getPlayerIndex pos))"
  shows "threw (addPostflopAction pos a b s)"
  using recordAction_folded_throws [OF out]
  by (simp add: addPostflopAction_def threw_def)

text \<open>
  C8. Once a seat's \<open>folded\<close> flag is true, it is true after every later sequence of calls
  (actions, returning or throwing, and board confirmations), and every attempt to record an
  action for that seat, through \<open>addPreflopAction\<close> or \<open>addPostflopAction\<close>, with any
  action type and any size, throws.
\<close>

theorem folded_seat_stays_out:
  assumes six: "length (players s) = 6" and out: "folded (playerAt s (getPlayerIndex pos))"
  shows "folded (playerAt (performAll cs s) (getPlayerIndex pos))
         \<and> threw (addPreflopAction pos a b (performAll cs s))
         \<and> threw (addPostflopAction pos a b (performAll cs s))"
proof -
  let ?k = "nat (getPlayerIndex pos)"
  let ?I = "\<lambda>t::Engine. folded (players t ! ?k)"
  have k: "?k < 6" by (rule nat_getPlayerIndex_less)
  have "length (players (performAll cs s)) = 6 \<and> ?I (performAll cs s)"
  proof (rule performAll_preserves [where I = ?I])
    fix t p a' b' sk t'
    assume "?I t" "length (players t) = 6" "recordAction p a' b' sk t = Inr t'"
    then show "?I t'" using recordAction_folded_mono by blast
  next
    fix t assume "?I t" "length (players t) = 6"
    then show "?I (advanceToNextActor t)" using k by (simp add: advanceToNextActor_folded)
  next
    fix t :: Engine and i assume "?I t"
    then show "?I (t\<lparr>currentActorIndex := i\<rparr>)" by simp
  next
    fix t assume "?I t"
    then show "?I (confirmBoard t)" by simp
  next
    show "length (players s) = 6" by (rule six)
  next
    show "?I s" using out by (simp add: playerAt_def)
  qed
  then have six': "length (players (performAll cs s)) = 6"
    and out': "folded (playerAt (performAll cs s) (getPlayerIndex pos))"
    by (simp_all add: playerAt_def)
  from out' addPreflopAction_folded_throws [OF six' out'] addPostflopAction_folded_throws [OF out']
  show ?thesis by blast
qed

theorem folded_seat_stays_out_witness:
  "length (players skipRaiseHand) = 6
   \<and> folded (playerAt skipRaiseHand (getPlayerIndex UTG))
   \<and> folded (playerAt (performAll [AddPreflopAction BB Call None, ConfirmBoard] skipRaiseHand)
         (getPlayerIndex UTG))
   \<and> threw (addPreflopAction UTG Call None
         (performAll [AddPreflopAction BB Call None, ConfirmBoard] skipRaiseHand))
   \<and> threw (addPostflopAction UTG Raise (Some 10)
         (performAll [AddPreflopAction BB Call None, ConfirmBoard] skipRaiseHand))"
proof -
  have six: "length (players skipRaiseHand) = 6" by code_simp
  have out: "folded (playerAt skipRaiseHand (getPlayerIndex UTG))" by code_simp
  have "folded (playerAt (performAll [AddPreflopAction BB Call None, ConfirmBoard] skipRaiseHand)
          (getPlayerIndex UTG))
     \<and> threw (addPreflopAction UTG Call None
          (performAll [AddPreflopAction BB Call None, ConfirmBoard] skipRaiseHand))
     \<and> threw (addPostflopAction UTG Call None
          (performAll [AddPreflopAction BB Call None, ConfirmBoard] skipRaiseHand))"
    by (rule folded_seat_stays_out [OF six out])
  moreover have "folded (playerAt (performAll [AddPreflopAction BB Call None, ConfirmBoard] skipRaiseHand)
          (getPlayerIndex UTG))
     \<and> threw (addPreflopAction UTG Raise (Some 10)
          (performAll [AddPreflopAction BB Call None, ConfirmBoard] skipRaiseHand))
     \<and> threw (addPostflopAction UTG Raise (Some 10)
          (performAll [AddPreflopAction BB Call None, ConfirmBoard] skipRaiseHand))"
    by (rule folded_seat_stays_out [OF six out])
  ultimately show ?thesis using six out by blast
qed

subsection \<open>Pot accounting\<close>










subsection \<open>Rejected calls\<close>




subsection \<open>The next seat that can act\<close>

lemma offsets_1_to_6: "(1::int) \<le> j \<Longrightarrow> j \<le> 6 \<Longrightarrow> j = 1 \<or> j = 2 \<or> j = 3 \<or> j = 4 \<or> j = 5 \<or> j = 6"
  by arith

lemma getNext_unfold:
  "getNextActivePlayerIndex s a =
     (if canActAt s ((a + 1) mod 6) then (a + 1) mod 6
      else if canActAt s ((a + 2) mod 6) then (a + 2) mod 6
      else if canActAt s ((a + 3) mod 6) then (a + 3) mod 6
      else if canActAt s ((a + 4) mod 6) then (a + 4) mod 6
      else if canActAt s ((a + 5) mod 6) then (a + 5) mod 6
      else if canActAt s ((a + 6) mod 6) then (a + 6) mod 6
      else -1)"
  by (simp add: getNextActivePlayerIndex_def Let_def canActAt_def)

lemma getNext_none:
  assumes "getNextActivePlayerIndex s a = -1" "1 \<le> j" "j \<le> 6"
  shows "\<not> canActAt s ((a + j) mod 6)"
proof -
  have nonneg: "\<And>x::int. x mod 6 \<noteq> -1"
  proof -
    fix x :: int have "0 \<le> x mod 6" by simp
    then show "x mod 6 \<noteq> -1" by linarith
  qed
  from offsets_1_to_6 [OF assms(2,3)] assms(1) show ?thesis
    by (auto simp: getNext_unfold nonneg split: if_splits)
qed

lemma getNext_some:
  assumes "getNextActivePlayerIndex s a = n" "n \<noteq> -1"
  shows "\<exists>k. 1 \<le> k \<and> k \<le> 6 \<and> n = (a + k) mod 6 \<and> canActAt s n
             \<and> (\<forall>j. 1 \<le> j \<and> j < k \<longrightarrow> \<not> canActAt s ((a + j) mod 6))"
proof -
  let ?c = "\<lambda>j. canActAt s ((a + j) mod 6)"
  have upto: "\<And>j k::int. 1 \<le> j \<Longrightarrow> j < k \<Longrightarrow> k \<le> 6 \<Longrightarrow>
               j = 1 \<or> j = 2 \<or> j = 3 \<or> j = 4 \<or> j = 5" by arith
  consider (c1) "?c 1"
    | (c2) "\<not> ?c 1" "?c 2"
    | (c3) "\<not> ?c 1" "\<not> ?c 2" "?c 3"
    | (c4) "\<not> ?c 1" "\<not> ?c 2" "\<not> ?c 3" "?c 4"
    | (c5) "\<not> ?c 1" "\<not> ?c 2" "\<not> ?c 3" "\<not> ?c 4" "?c 5"
    | (c6) "\<not> ?c 1" "\<not> ?c 2" "\<not> ?c 3" "\<not> ?c 4" "\<not> ?c 5" "?c 6"
    | (none) "\<not> ?c 1" "\<not> ?c 2" "\<not> ?c 3" "\<not> ?c 4" "\<not> ?c 5" "\<not> ?c 6"
    by blast
  then show ?thesis
  proof cases
    case c1
    then have "n = (a + 1) mod 6" using assms(1)
      by (simp add: getNext_unfold)
    with c1 show ?thesis by (intro exI [of _ 1]) auto
  next
    case c2
    then have "n = (a + 2) mod 6" using assms(1)
      by (simp add: getNext_unfold)
    with c2 show ?thesis by (intro exI [of _ 2]) (auto dest: upto)
  next
    case c3
    then have "n = (a + 3) mod 6" using assms(1)
      by (simp add: getNext_unfold)
    with c3 show ?thesis by (intro exI [of _ 3]) (auto dest: upto)
  next
    case c4
    then have "n = (a + 4) mod 6" using assms(1)
      by (simp add: getNext_unfold)
    with c4 show ?thesis by (intro exI [of _ 4]) (auto dest: upto)
  next
    case c5
    then have "n = (a + 5) mod 6" using assms(1)
      by (simp add: getNext_unfold)
    with c5 show ?thesis by (intro exI [of _ 5]) (auto dest: upto)
  next
    case c6
    then have "n = (a + 6) mod 6" using assms(1)
      by (simp add: getNext_unfold)
    with c6 show ?thesis by (intro exI [of _ 6]) (auto dest: upto)
  next
    case none
    then have "n = -1" using assms(1)
      by (simp add: getNext_unfold)
    with assms(2) show ?thesis by simp
  qed
qed

subsection \<open>One pass of the skip loop\<close>

lemma skip_fold_effect:
  assumes six: "length (players s) = 6" and lo: "0 \<le> idx" and hi: "idx < 6"
    and step: "(if \<not> folded (playerAt s idx)
                then recordAction (POSITION_ORDER ! nat idx) Fold None True s
                else Inr s) = Inr t"
  shows "length (players t) = 6"
    and "folded (playerAt t idx)"
    and "\<And>j. stack (playerAt t j) = stack (playerAt s j)"
    and "\<And>j. 0 \<le> j \<Longrightarrow> j \<noteq> idx \<Longrightarrow> folded (playerAt t j) = folded (playerAt s j)"
    and "\<And>j. folded (playerAt s j) \<Longrightarrow> folded (playerAt t j)"
proof -
  have pos: "getPlayerIndex (POSITION_ORDER ! nat idx) = idx"
    using lo hi by (rule position_of_index)
  have shape: "(folded (playerAt s idx) \<and> t = s) \<or> (\<not> folded (playerAt s idx) \<and>
      players t = (players s)[nat idx := (players s ! nat idx)\<lparr>folded := True, hasActedThisStreet := True\<rparr>])"
    using step by (auto simp: recordAction_def commitAction_def Let_def pos playerAt_def split: if_splits)
  have inRange: "nat idx < length (players s)" using six lo hi by simp
  show "length (players t) = 6" using shape six by auto
  show "folded (playerAt t idx)"
    using shape inRange by (auto simp: playerAt_def)
  show "\<And>j. stack (playerAt t j) = stack (playerAt s j)"
    using shape by (auto simp: playerAt_def nth_update_cases)
  have apart: "\<And>j. 0 \<le> j \<Longrightarrow> j \<noteq> idx \<Longrightarrow> nat idx \<noteq> nat j" using lo by simp
  show "\<And>j. 0 \<le> j \<Longrightarrow> j \<noteq> idx \<Longrightarrow> folded (playerAt t j) = folded (playerAt s j)"
    using shape apart by (auto simp: playerAt_def nth_update_cases)
  show "\<And>j. folded (playerAt s j) \<Longrightarrow> folded (playerAt t j)"
    using shape by (auto simp: playerAt_def nth_update_cases)
qed

lemma ring_next_offset:
  fixes idx e k :: int
  assumes "0 \<le> k" "k \<le> (e - idx) mod 6"
  shows "(e - (idx + k) mod 6) mod 6 = (e - idx) mod 6 - k"
proof -
  have bound: "(e - idx) mod 6 < 6" by simp
  have "(e - (idx + k) mod 6) mod 6 = (e - (idx + k)) mod 6"
    by (simp add: mod_diff_right_eq)
  also have "\<dots> = ((e - idx) - k) mod 6" by (simp add: algebra_simps)
  also have "\<dots> = ((e - idx) mod 6 - k) mod 6" by (simp add: mod_diff_left_eq)
  also have "\<dots> = (e - idx) mod 6 - k"
    using assms bound by (intro mod_pos_pos_trivial) linarith+
  finally show ?thesis .
qed

lemma ring_shift: "((idx + k) mod 6 + d) mod 6 = (idx + (k + d)) mod 6" for idx k d :: int
  by (simp add: mod_add_left_eq add.assoc)

lemma ring_outside:
  fixes idx e j k :: int
  assumes "0 \<le> k" "k \<le> (e - idx) mod 6" "\<not> (j - idx) mod 6 < (e - idx) mod 6"
  shows "\<not> (j - (idx + k) mod 6) mod 6 < (e - (idx + k) mod 6) mod 6"
proof -
  have "k \<le> (j - idx) mod 6" using assms by linarith
  from ring_next_offset [OF assms(1) this] ring_next_offset [OF assms(1,2)] assms(3)
  show ?thesis by linarith
qed

lemma ring_seat_of_offset:
  fixes idx j :: int
  assumes "0 \<le> j" "j < 6"
  shows "(idx + (j - idx) mod 6) mod 6 = j"
proof -
  have "(idx + (j - idx) mod 6) mod 6 = (idx + (j - idx)) mod 6"
    by (simp add: mod_add_right_eq)
  also have "\<dots> = j" using assms by simp
  finally show ?thesis .
qed

lemma ring_offset_of_seat:
  fixes idx d :: int
  assumes "0 \<le> d" "d < 6"
  shows "((idx + d) mod 6 - idx) mod 6 = d"
proof -
  have "((idx + d) mod 6 - idx) mod 6 = ((idx + d) - idx) mod 6"
    by (simp add: mod_diff_left_eq)
  also have "\<dots> = d" using assms by simp
  finally show ?thesis .
qed

subsection \<open>The skip loop along the ring\<close>

lemma ring_distinct:
  fixes idx e :: int
  assumes "0 \<le> idx" "idx < 6" "0 \<le> e" "e < 6" "idx \<noteq> e"
  shows "0 < (e - idx) mod 6"
proof -
  have "(e - idx) mod 6 \<noteq> 0"
  proof
    assume "(e - idx) mod 6 = 0"
    then have "6 dvd (e - idx)" by (simp add: dvd_eq_mod_eq_0)
    then obtain q where q: "e - idx = 6 * q" by (auto simp: dvd_def)
    with assms show False by arith
  qed
  moreover have "0 \<le> (e - idx) mod 6" by simp
  ultimately show ?thesis by linarith
qed

lemma autoFoldLoop_range:
  "length (players t) = 6 \<Longrightarrow> 0 \<le> idx \<Longrightarrow> idx < 6 \<Longrightarrow> 0 \<le> e \<Longrightarrow> e < 6 \<Longrightarrow>
   idx \<notin> pr \<Longrightarrow> (\<forall>p\<in>pr. folded (playerAt t p)) \<Longrightarrow>
   \<exists>t'. autoFoldLoop idx e pr t = Inr t' \<and> skipPost idx e t t'"
proof (induction idx e pr t rule: autoFoldLoop.induct)
  case (1 idx e pr t)
  note six = \<open>length (players t) = 6\<close>
    and lo = \<open>0 \<le> idx\<close> and hi = \<open>idx < 6\<close> and elo = \<open>0 \<le> e\<close> and ehi = \<open>e < 6\<close>
    and unseen = \<open>idx \<notin> pr\<close> and seen = \<open>\<forall>p\<in>pr. folded (playerAt t p)\<close>
  show ?case
  proof (cases "idx = e")
    case True
    then have "autoFoldLoop idx e pr t = Inr t" by (subst autoFoldLoop.simps) simp
    moreover have "skipPost idx e t t" using True six by (auto simp: skipPost_def)
    ultimately show ?thesis by blast
  next
    case ne: False
    have rng: "\<not> (idx < 0 \<or> int (length (players t)) \<le> idx)" using six lo hi by simp
    obtain t1 where step: "(if \<not> folded (playerAt t idx)
                then recordAction (POSITION_ORDER ! nat idx) Fold None True t
                else Inr t) = Inr t1"
      using recordAction_skip_fold_returns [OF six lo hi] by (cases "folded (playerAt t idx)") auto
    note eff = skip_fold_effect [OF six lo hi step]
    let ?D = "(e - idx) mod 6"
    let ?n = "getNextActivePlayerIndex t1 idx"
    have Dpos: "0 < ?D" using ring_distinct [OF lo hi elo ehi ne] .
    have Dlt: "?D < 6" by simp
    have inArc: "\<And>j. \<not> (j - idx) mod 6 < ?D \<Longrightarrow> j \<noteq> idx"
      using Dpos by auto
    have eSeat: "(idx + ?D) mod 6 = e" using ring_seat_of_offset [OF elo ehi] .
    show ?thesis
    proof (cases "?n = -1 \<or> ?n = idx")
      case stop: True
      have res: "autoFoldLoop idx e pr t = Inr t1"
        using ne unseen rng step stop by (subst autoFoldLoop.simps) (auto simp: Let_def)
      have nobody: "\<And>d. 1 \<le> d \<Longrightarrow> d \<le> 6 \<Longrightarrow> \<not> canActAt t1 ((idx + d) mod 6)"
      proof -
        fix d :: int assume d: "1 \<le> d" "d \<le> 6"
        show "\<not> canActAt t1 ((idx + d) mod 6)"
        proof (cases "?n = -1")
          case True
          then show ?thesis using getNext_none [OF _ d] by blast
        next
          case False
          with stop have "?n = idx" by simp
          moreover from getNext_some [OF refl False] have "canActAt t1 ?n" by blast
          ultimately show ?thesis using eff(2) by (simp add: canActAt_def)
        qed
      qed
      have arc: "\<forall>d. 0 \<le> d \<and> d < ?D \<and> (d = 0 \<or> stack (playerAt t ((idx + d) mod 6)) > 1/100)
                   \<longrightarrow> folded (playerAt t1 ((idx + d) mod 6))"
      proof (intro allI impI)
        fix d assume d: "0 \<le> d \<and> d < ?D \<and> (d = 0 \<or> stack (playerAt t ((idx + d) mod 6)) > 1/100)"
        show "folded (playerAt t1 ((idx + d) mod 6))"
        proof (cases "d = 0")
          case True
          then show ?thesis using eff(2) lo hi by simp
        next
          case False
          with d Dlt have "1 \<le> d" "d \<le> 6" "stack (playerAt t ((idx + d) mod 6)) > 1/100" by auto
          with nobody [of d] eff(3) show ?thesis by (simp add: canActAt_def)
        qed
      qed
      have newly: "\<forall>j. 0 \<le> j \<and> j < 6 \<and> folded (playerAt t1 j) \<and> \<not> folded (playerAt t j)
             \<longrightarrow> j \<noteq> e \<and> (j = idx \<or> stack (playerAt t j) > 1/100)"
        using eff(4) ne by blast
      have outside: "\<forall>j. 0 \<le> j \<and> j < 6 \<and> \<not> (j - idx) mod 6 < ?D
               \<longrightarrow> folded (playerAt t1 j) = folded (playerAt t j)"
        using eff(4) inArc by blast
      have "skipPost idx e t t1"
        unfolding skipPost_def using eff(1,3,5) arc newly outside by blast
      with res show ?thesis by blast
    next
      case go: False
      then have nfound: "?n \<noteq> -1" and nmove: "?n \<noteq> idx" by auto
      from getNext_some [OF refl nfound]
      obtain k where k: "1 \<le> k" "k \<le> 6" and nk: "?n = (idx + k) mod 6"
        and nAct: "canActAt t1 ?n"
        and before: "\<forall>j. 1 \<le> j \<and> j < k \<longrightarrow> \<not> canActAt t1 ((idx + j) mod 6)"
        by blast
      have nlo: "0 \<le> ?n" and nhi: "?n < 6" using nk by simp_all
      have unseen1: "?n \<notin> insert idx pr"
      proof
        assume "?n \<in> insert idx pr"
        with nmove have "?n \<in> pr" by simp
        with seen have "folded (playerAt t ?n)" by blast
        then have "folded (playerAt t1 ?n)" by (rule eff(5))
        with nAct show False by (simp add: canActAt_def)
      qed
      have seen1: "\<forall>p\<in>insert idx pr. folded (playerAt t1 p)"
        using seen eff(2,5) by auto
      from "1.IH" [OF ne unseen rng step refl go eff(1) nlo nhi elo ehi unseen1 seen1]
      obtain t' where rec: "autoFoldLoop ?n e (insert idx pr) t1 = Inr t'"
        and post: "skipPost ?n e t1 t'" by blast
      have res: "autoFoldLoop idx e pr t = Inr t'"
        using ne unseen rng step go rec by (subst autoFoldLoop.simps) (auto simp: Let_def)
      from post have p_len: "length (players t') = 6"
        and p_stack: "\<And>j. stack (playerAt t' j) = stack (playerAt t1 j)"
        and p_mono: "\<And>j. folded (playerAt t1 j) \<Longrightarrow> folded (playerAt t' j)"
        and p_arc: "\<And>d. 0 \<le> d \<Longrightarrow> d < (e - ?n) mod 6 \<Longrightarrow>
                      (d = 0 \<or> stack (playerAt t1 ((?n + d) mod 6)) > 1/100) \<Longrightarrow>
                      folded (playerAt t' ((?n + d) mod 6))"
        and p_new: "\<And>j. 0 \<le> j \<Longrightarrow> j < 6 \<Longrightarrow> folded (playerAt t' j) \<Longrightarrow> \<not> folded (playerAt t1 j) \<Longrightarrow>
                      j \<noteq> e \<and> (j = ?n \<or> stack (playerAt t1 j) > 1/100)"
        and p_out: "\<And>j. canActAt t1 e \<Longrightarrow> 0 \<le> j \<Longrightarrow> j < 6 \<Longrightarrow> \<not> (j - ?n) mod 6 < (e - ?n) mod 6 \<Longrightarrow>
                      folded (playerAt t' j) = folded (playerAt t1 j)"
        unfolding skipPost_def by blast+
      have arc: "\<forall>d. 0 \<le> d \<and> d < ?D \<and> (d = 0 \<or> stack (playerAt t ((idx + d) mod 6)) > 1/100)
                   \<longrightarrow> folded (playerAt t' ((idx + d) mod 6))"
      proof (intro allI impI)
        fix d assume d: "0 \<le> d \<and> d < ?D \<and> (d = 0 \<or> stack (playerAt t ((idx + d) mod 6)) > 1/100)"
        consider (zero) "d = 0" | (early) "1 \<le> d" "d < k" | (late) "1 \<le> d" "k \<le> d"
          using d by linarith
        then show "folded (playerAt t' ((idx + d) mod 6))"
        proof cases
          case zero
          then show ?thesis using eff(2) p_mono lo hi by simp
        next
          case early
          with before have "\<not> canActAt t1 ((idx + d) mod 6)" by blast
          moreover from early d have "stack (playerAt t ((idx + d) mod 6)) > 1/100" by auto
          ultimately have "folded (playerAt t1 ((idx + d) mod 6))"
            using eff(3) by (simp add: canActAt_def)
          then show ?thesis by (rule p_mono)
        next
          case late
          with d have kD: "k \<le> ?D" by linarith
          have k0: "0 \<le> k" using k by linarith
          have off: "(e - ?n) mod 6 = ?D - k"
            unfolding nk using ring_next_offset [OF k0 kD] .
          have seat: "(?n + (d - k)) mod 6 = (idx + d) mod 6"
            unfolding nk using ring_shift [of idx k "d - k"] by simp
          have "stack (playerAt t1 ((?n + (d - k)) mod 6)) > 1/100"
            using late d eff(3) seat by auto
          with p_arc [of "d - k"] late d off have "folded (playerAt t' ((?n + (d - k)) mod 6))"
            by auto
          with seat show ?thesis by simp
        qed
      qed
      have newly: "\<forall>j. 0 \<le> j \<and> j < 6 \<and> folded (playerAt t' j) \<and> \<not> folded (playerAt t j)
             \<longrightarrow> j \<noteq> e \<and> (j = idx \<or> stack (playerAt t j) > 1/100)"
      proof (intro allI impI)
        fix j assume j: "0 \<le> j \<and> j < 6 \<and> folded (playerAt t' j) \<and> \<not> folded (playerAt t j)"
        show "j \<noteq> e \<and> (j = idx \<or> stack (playerAt t j) > 1/100)"
        proof (cases "folded (playerAt t1 j)")
          case True
          with j eff(4) [of j] have "j = idx" by auto
          with ne show ?thesis by simp
        next
          case False
          with j p_new [of j] have "j \<noteq> e" and "j = ?n \<or> stack (playerAt t1 j) > 1/100" by auto
          moreover have "stack (playerAt t1 ?n) > 1/100" using nAct by (simp add: canActAt_def)
          ultimately show ?thesis using eff(3) by auto
        qed
      qed
      have outside: "canActAt t e \<longrightarrow>
            (\<forall>j. 0 \<le> j \<and> j < 6 \<and> \<not> (j - idx) mod 6 < ?D
               \<longrightarrow> folded (playerAt t' j) = folded (playerAt t j))"
      proof (intro impI allI)
        fix j assume eAct: "canActAt t e" and j: "0 \<le> j \<and> j < 6 \<and> \<not> (j - idx) mod 6 < ?D"
        have eAct1: "canActAt t1 e"
          using eAct eff(3) eff(4) [OF elo] ne by (auto simp: canActAt_def)
        have kD: "k \<le> ?D"
        proof (rule ccontr)
          assume "\<not> k \<le> ?D"
          with Dpos before have "\<not> canActAt t1 ((idx + ?D) mod 6)" by auto
          with eSeat eAct1 show False by simp
        qed
        have k0: "0 \<le> k" using k by linarith
        from j have out: "\<not> (j - idx) mod 6 < ?D" by blast
        have "\<not> (j - ?n) mod 6 < (e - ?n) mod 6"
          unfolding nk using ring_outside [OF k0 kD out] .
        with p_out [OF eAct1] j have "folded (playerAt t' j) = folded (playerAt t1 j)" by blast
        moreover have "j \<noteq> idx" using inArc [OF out] .
        ultimately show "folded (playerAt t' j) = folded (playerAt t j)"
          using eff(4) [of j] j by simp
      qed
      have "skipPost idx e t t'"
        unfolding skipPost_def
        using p_len p_stack eff(3) p_mono eff(5) arc newly outside by auto
      with res show ?thesis by blast
    qed
  qed
qed

subsection \<open>The preflop skip\<close>

lemma recordAction_others:
  assumes "recordAction pos actionType betSz skipValidation s = Inr s'"
    and "k \<noteq> nat (getPlayerIndex pos)"
  shows "players s' ! k = players s ! k"
  using assms
  by (cases actionType;
      auto simp: recordAction_def commitAction_def Let_def nth_update_cases split: if_splits)

lemma addPreflopAction_after_skip:
  assumes six: "length (players s) = 6" and pre: "phase (street s) = Preflop"
    and skip: "autoFoldBetween (currentActorIndex s) (getPlayerIndex pos) s = Inr s1"
    and six1: "length (players s1) = 6"
    and named: "getPlayerIndex pos \<noteq> currentActorIndex s"
    and j: "0 \<le> j" "j < 6"
  shows "folded (playerAt s1 j) \<Longrightarrow> folded (playerAt (stateAfter (addPreflopAction pos a b s)) j)"
    and "j \<noteq> getPlayerIndex pos \<Longrightarrow>
         folded (playerAt (stateAfter (addPreflopAction pos a b s)) j) = folded (playerAt s1 j)"
proof -
  let ?s2 = "s1\<lparr>currentActorIndex := getPlayerIndex pos\<rparr>"
  have jn: "nat j < 6" using j by simp
  have apart: "j \<noteq> getPlayerIndex pos \<Longrightarrow> nat j \<noteq> nat (getPlayerIndex pos)"
    using j getPlayerIndex_range [of pos] by arith
  have both: "(folded (playerAt s1 j) \<longrightarrow> folded (playerAt (stateAfter (addPreflopAction pos a b s)) j))
     \<and> (j \<noteq> getPlayerIndex pos \<longrightarrow>
         folded (playerAt (stateAfter (addPreflopAction pos a b s)) j) = folded (playerAt s1 j))"
  proof (cases "recordAction pos a b False ?s2")
    case (Inl thrown)
    then obtain err s3 where thrown: "recordAction pos a b False ?s2 = Inl (err, s3)"
      by (cases thrown) auto
    then have "s3 = ?s2" by (rule recordAction_throw_unchanged)
    with thrown have "stateAfter (addPreflopAction pos a b s) = ?s2"
      using pre skip named by (simp add: addPreflopAction_def stateAfter_def Let_def)
    then show ?thesis by (simp add: playerAt_def)
  next
    case (Inr s3)
    have len3: "length (players s3) = 6" using recordAction_frame(1) [OF Inr] six1 by simp
    have final: "stateAfter (addPreflopAction pos a b s) = advanceToNextActor s3"
      using pre skip named Inr by (simp add: addPreflopAction_def stateAfter_def Let_def)
    have adv: "folded (playerAt (advanceToNextActor s3) j) = folded (playerAt s3 j)"
      using advanceToNextActor_folded [of "nat j" s3] jn len3 by (simp add: playerAt_def)
    have mono: "folded (playerAt s1 j) \<Longrightarrow> folded (playerAt s3 j)"
      using recordAction_folded_mono [OF Inr, of "nat j"] by (simp add: playerAt_def)
    have same: "j \<noteq> getPlayerIndex pos \<Longrightarrow> playerAt s3 j = playerAt s1 j"
      using recordAction_others [OF Inr, of "nat j"] apart by (simp add: playerAt_def)
    show ?thesis using final adv mono same by auto
  qed
  from both show "folded (playerAt s1 j) \<Longrightarrow> folded (playerAt (stateAfter (addPreflopAction pos a b s)) j)"
    by blast
  from both show "j \<noteq> getPlayerIndex pos \<Longrightarrow>
         folded (playerAt (stateAfter (addPreflopAction pos a b s)) j) = folded (playerAt s1 j)"
    by blast
qed

text \<open>
  C6, as the code has it. On a fresh hand with hero on the button and stack 100,
  \<open>addPreflopAction(BTN, Raise, 3)\<close> returns with the history
  \<open>[UTG Fold, HJ Fold, CO Fold, BTN Raise 3]\<close> in that order, the current actor at SB and
  the pot at 4.5. In general, when the named seat is not the current actor, the skip folds
  the current actor and every seat that has more than 0.01 behind on the clockwise walk from
  the current actor (inclusive) to the named seat (exclusive); a non-folded seat with at
  most 0.01 behind (all-in) other than the current actor is passed over and stays in the
  hand; and when the named seat itself can act, no seat off that walk changes its folded
  flag (the named seat only through its own recorded action).
\<close>

theorem skip_auto_folds:
  assumes six: "length (players s) = 6" and pre: "phase (street s) = Preflop"
    and cur: "0 \<le> currentActorIndex s" "currentActorIndex s < 6"
    and named: "getPlayerIndex pos \<noteq> currentActorIndex s"
    and seat: "0 \<le> i" "i < 6"
  shows "(map actPosition (actions skipRaiseHand) = [UTG, HJ, CO, BTN]
      \<and> map action (actions skipRaiseHand) = [Fold, Fold, Fold, Raise]
      \<and> map betSize (actions skipRaiseHand) = [None, None, None, Some 3]
      \<and> addPreflopAction BTN Raise (Some 3) freshHand = Inr skipRaiseHand
      \<and> getCurrentActor skipRaiseHand = Some SB
      \<and> pot (street skipRaiseHand) = 9/2)
     \<and> (betweenClockwise (currentActorIndex s) (getPlayerIndex pos) i
          \<and> (i = currentActorIndex s \<or> stack (playerAt s i) > 1/100)
        \<longrightarrow> folded (playerAt (stateAfter (addPreflopAction pos a b s)) i))
     \<and> (i \<noteq> currentActorIndex s \<and> i \<noteq> getPlayerIndex pos
          \<and> \<not> folded (playerAt s i) \<and> stack (playerAt s i) \<le> 1/100
        \<longrightarrow> \<not> folded (playerAt (stateAfter (addPreflopAction pos a b s)) i))
     \<and> (\<not> folded (playerAt s (getPlayerIndex pos)) \<and> stack (playerAt s (getPlayerIndex pos)) > 1/100
          \<and> \<not> betweenClockwise (currentActorIndex s) (getPlayerIndex pos) i \<and> i \<noteq> getPlayerIndex pos
        \<longrightarrow> folded (playerAt (stateAfter (addPreflopAction pos a b s)) i) = folded (playerAt s i))"
proof -
  let ?c = "currentActorIndex s" and ?e = "getPlayerIndex pos"
  let ?after = "stateAfter (addPreflopAction pos a b s)"
  have scenario: "map actPosition (actions skipRaiseHand) = [UTG, HJ, CO, BTN]
     \<and> map action (actions skipRaiseHand) = [Fold, Fold, Fold, Raise]
     \<and> map betSize (actions skipRaiseHand) = [None, None, None, Some 3]
     \<and> addPreflopAction BTN Raise (Some 3) freshHand = Inr skipRaiseHand
     \<and> getCurrentActor skipRaiseHand = Some SB
     \<and> pot (street skipRaiseHand) = 9/2"
    by code_simp
  have e: "0 \<le> ?e" "?e < 6" using getPlayerIndex_range [of pos] by simp_all
  from autoFoldLoop_range [OF six cur e, of "{}"]
  obtain s1 where skip: "autoFoldBetween ?c ?e s = Inr s1" and post: "skipPost ?c ?e s s1"
    by (auto simp: autoFoldBetween_def)
  from post have six1: "length (players s1) = 6"
    and arc: "\<And>d. 0 \<le> d \<Longrightarrow> d < (?e - ?c) mod 6 \<Longrightarrow>
                (d = 0 \<or> stack (playerAt s ((?c + d) mod 6)) > 1/100) \<Longrightarrow>
                folded (playerAt s1 ((?c + d) mod 6))"
    and new: "\<And>j. 0 \<le> j \<Longrightarrow> j < 6 \<Longrightarrow> folded (playerAt s1 j) \<Longrightarrow> \<not> folded (playerAt s j) \<Longrightarrow>
                j \<noteq> ?e \<and> (j = ?c \<or> stack (playerAt s j) > 1/100)"
    and out: "\<And>j. canActAt s ?e \<Longrightarrow> 0 \<le> j \<Longrightarrow> j < 6 \<Longrightarrow>
                \<not> (j - ?c) mod 6 < (?e - ?c) mod 6 \<Longrightarrow>
                folded (playerAt s1 j) = folded (playerAt s j)"
    unfolding skipPost_def by blast+
  note fin = addPreflopAction_after_skip [OF six pre skip six1 named seat, of a b]
  have part1: "betweenClockwise ?c ?e i \<and> (i = ?c \<or> stack (playerAt s i) > 1/100)
        \<longrightarrow> folded (playerAt ?after i)"
  proof
    assume h: "betweenClockwise ?c ?e i \<and> (i = ?c \<or> stack (playerAt s i) > 1/100)"
    let ?d = "(i - ?c) mod 6"
    have seatEq: "(?c + ?d) mod 6 = i" using ring_seat_of_offset [OF seat] .
    have f3: "?d = 0 \<or> stack (playerAt s ((?c + ?d) mod 6)) > 1/100"
    proof (cases "i = ?c")
      case True
      then show ?thesis by simp
    next
      case False
      with h have "stack (playerAt s i) > 1/100" by blast
      then show ?thesis by (simp add: seatEq)
    qed
    have f1: "0 \<le> ?d" by simp
    have f2: "?d < (?e - ?c) mod 6" using h by (simp add: betweenClockwise_def)
    have "folded (playerAt s1 ((?c + ?d) mod 6))" using f1 f2 f3 by (rule arc)
    then have "folded (playerAt s1 i)" by (simp only: seatEq)
    then show "folded (playerAt ?after i)" by (rule fin(1))
  qed
  have part2: "i \<noteq> ?c \<and> i \<noteq> ?e \<and> \<not> folded (playerAt s i) \<and> stack (playerAt s i) \<le> 1/100
        \<longrightarrow> \<not> folded (playerAt ?after i)"
  proof
    assume h: "i \<noteq> ?c \<and> i \<noteq> ?e \<and> \<not> folded (playerAt s i) \<and> stack (playerAt s i) \<le> 1/100"
    show "\<not> folded (playerAt ?after i)"
    proof
      assume "folded (playerAt ?after i)"
      moreover from h have "i \<noteq> ?e" by blast
      ultimately have "folded (playerAt s1 i)" using fin(2) by blast
      moreover from h have "\<not> folded (playerAt s i)" by blast
      ultimately have "i = ?c \<or> stack (playerAt s i) > 1/100" using new [OF seat] by blast
      with h show False by auto
    qed
  qed
  have part3: "\<not> folded (playerAt s ?e) \<and> stack (playerAt s ?e) > 1/100
          \<and> \<not> betweenClockwise ?c ?e i \<and> i \<noteq> ?e
        \<longrightarrow> folded (playerAt ?after i) = folded (playerAt s i)"
  proof
    assume h: "\<not> folded (playerAt s ?e) \<and> stack (playerAt s ?e) > 1/100
          \<and> \<not> betweenClockwise ?c ?e i \<and> i \<noteq> ?e"
    then have "canActAt s ?e" by (simp add: canActAt_def)
    moreover from h have "\<not> (i - ?c) mod 6 < (?e - ?c) mod 6"
      by (simp add: betweenClockwise_def)
    ultimately have "folded (playerAt s1 i) = folded (playerAt s i)" using out seat by blast
    moreover from h have "i \<noteq> ?e" by blast
    ultimately show "folded (playerAt ?after i) = folded (playerAt s i)" using fin(2) by blast
  qed
  show ?thesis by (rule conjI [OF scenario conjI [OF part1 conjI [OF part2 part3]]])
qed

theorem skip_auto_folds_witness:
  "length (players freshHand) = 6 \<and> phase (street freshHand) = Preflop
   \<and> 0 \<le> currentActorIndex freshHand \<and> currentActorIndex freshHand < 6
   \<and> getPlayerIndex BTN \<noteq> currentActorIndex freshHand
   \<and> betweenClockwise (currentActorIndex freshHand) (getPlayerIndex BTN) 3
   \<and> stack (playerAt freshHand 3) > 1/100
   \<and> folded (playerAt (stateAfter (addPreflopAction BTN Raise (Some 3) freshHand)) 3)
   \<and> length (players squeezedHand) = 6 \<and> phase (street squeezedHand) = Preflop
   \<and> 0 \<le> currentActorIndex squeezedHand \<and> currentActorIndex squeezedHand < 6
   \<and> getPlayerIndex CO \<noteq> currentActorIndex squeezedHand
   \<and> \<not> folded (playerAt squeezedHand 3) \<and> stack (playerAt squeezedHand 3) \<le> 1/100
   \<and> \<not> folded (playerAt (stateAfter (addPreflopAction CO Check None squeezedHand)) 3)"
proof -
  have six: "length (players freshHand) = 6" and pre: "phase (street freshHand) = Preflop"
    and cur: "0 \<le> currentActorIndex freshHand" "currentActorIndex freshHand < 6"
    and named: "getPlayerIndex BTN \<noteq> currentActorIndex freshHand"
    and walk: "betweenClockwise (currentActorIndex freshHand) (getPlayerIndex BTN) 3
               \<and> (3 = currentActorIndex freshHand \<or> stack (playerAt freshHand 3) > 1/100)"
    and chips: "stack (playerAt freshHand 3) > 1/100"
    by code_simp+
  have seat: "(0::int) \<le> 3" "(3::int) < 6" by simp_all
  have six': "length (players squeezedHand) = 6" and pre': "phase (street squeezedHand) = Preflop"
    and cur': "0 \<le> currentActorIndex squeezedHand" "currentActorIndex squeezedHand < 6"
    and named': "getPlayerIndex CO \<noteq> currentActorIndex squeezedHand"
    and allIn: "3 \<noteq> currentActorIndex squeezedHand \<and> 3 \<noteq> getPlayerIndex CO
                \<and> \<not> folded (playerAt squeezedHand 3) \<and> stack (playerAt squeezedHand 3) \<le> 1/100"
    by code_simp+
  note fresh = skip_auto_folds [OF six pre cur named seat, of Raise "Some 3"]
  note squeezed = skip_auto_folds [OF six' pre' cur' named' seat, of Check None]
  have r1: "folded (playerAt (stateAfter (addPreflopAction BTN Raise (Some 3) freshHand)) 3)"
    using fresh [THEN conjunct2, THEN conjunct1] walk by (rule mp)
  have r2: "\<not> folded (playerAt (stateAfter (addPreflopAction CO Check None squeezedHand)) 3)"
    using squeezed [THEN conjunct2, THEN conjunct2, THEN conjunct1] allIn by (rule mp)
  from six pre cur named walk chips r1 six' pre' cur' named' allIn r2 show ?thesis by blast
qed

text \<open>
  C6 as stated fails for a seat that is all-in. UTG limps, HJ moves all-in, CO calls
  all-in, the button and the blinds fold, and the turn is back at UTG. Naming CO folds UTG
  but leaves HJ, who is not folded and sits between UTG and CO, in the hand.
\<close>

theorem skip_allin_seat_counterexample:
  "getCurrentActor squeezedHand = Some UTG
   \<and> currentActorIndex squeezedHand = getPlayerIndex UTG
   \<and> betweenClockwise (getPlayerIndex UTG) (getPlayerIndex CO) (getPlayerIndex HJ)
   \<and> \<not> folded (playerAt squeezedHand (getPlayerIndex HJ))
   \<and> stack (playerAt squeezedHand (getPlayerIndex HJ)) = 0
   \<and> \<not> threw (addPreflopAction CO Check None squeezedHand)
   \<and> map actPosition (actions (stateAfter (addPreflopAction CO Check None squeezedHand)))
       = map actPosition (actions squeezedHand) @ [UTG, CO]
   \<and> folded (playerAt (stateAfter (addPreflopAction CO Check None squeezedHand)) (getPlayerIndex UTG))
   \<and> \<not> folded (playerAt (stateAfter (addPreflopAction CO Check None squeezedHand)) (getPlayerIndex HJ))"
  by code_simp

subsection \<open>The all-in runout\<close>

lemma confirmBoard_no_actor_noop:
  "waitingForBoard s \<Longrightarrow> phase (street s) \<noteq> River \<Longrightarrow>
   filter (\<lambda>p. \<not> folded p \<and> stack p > 1/100) (players s) = [] \<Longrightarrow> confirmBoard s = s"
  by (simp add: confirmBoard_def)

text \<open>
  C1 says that after a full preflop all-in one \<open>confirmBoard()\<close> per remaining street takes
  the hand to River and leaves it complete. The code does not do that. UTG raises to 100 and
  the big blind calls: both calls return, two seats are left, both with stack 0, the engine
  waits for the board and the phase is Flop. From there \<open>confirmBoard()\<close> changes nothing:
  after three confirmations the phase is still Flop, the engine still waits for the board and
  \<open>isHandComplete()\<close> is false.
\<close>

theorem allin_runout_stuck:
  "addPreflopAction UTG Raise (Some 100) (newEngine (Some UTG) 100)
     = Inr (stateAfter (addPreflopAction UTG Raise (Some 100) (newEngine (Some UTG) 100)))
   \<and> addPreflopAction BB Call None
         (stateAfter (addPreflopAction UTG Raise (Some 100) (newEngine (Some UTG) 100)))
     = Inr allInHand
   \<and> getActivePlayerCount allInHand = 2
   \<and> stack (playerAt allInHand (getPlayerIndex UTG)) = 0
   \<and> stack (playerAt allInHand (getPlayerIndex BB)) = 0
   \<and> waitingForBoard allInHand
   \<and> phase (street allInHand) = Flop
   \<and> confirmBoard allInHand = allInHand
   \<and> phase (street (confirmBoard (confirmBoard (confirmBoard allInHand)))) = Flop
   \<and> waitingForBoard (confirmBoard (confirmBoard (confirmBoard allInHand)))
   \<and> \<not> isHandComplete (confirmBoard (confirmBoard (confirmBoard allInHand)))"
  by code_simp

subsection \<open>Folding when a check is available\<close>

text \<open>
  C4 says that a caller-issued \<open>Fold\<close> is rejected in every phase when the seat could check.
  Preflop the code accepts it. After five limps the big blind is the current actor, can
  check, and \<open>getAvailableActions\<close> offers \<open>[Check, Raise]\<close>; yet
  \<open>addPreflopAction(BB, Fold)\<close> returns, the big blind is folded and the Fold is in the
  history.
\<close>

theorem bb_option_fold_accepted:
  "phase (street limpedHand) = Preflop
   \<and> getCurrentActor limpedHand = Some BB
   \<and> canCheck limpedHand BB
   \<and> getAvailableActions limpedHand BB = [Check, Raise]
   \<and> \<not> threw (addPreflopAction BB Fold None limpedHand)
   \<and> folded (playerAt (stateAfter (addPreflopAction BB Fold None limpedHand)) (getPlayerIndex BB))
   \<and> map actPosition (actions (stateAfter (addPreflopAction BB Fold None limpedHand)))
       = [UTG, HJ, CO, BTN, SB, BB]
   \<and> map action (actions (stateAfter (addPreflopAction BB Fold None limpedHand)))
       = [Call, Call, Call, Call, Call, Fold]"
  by code_simp

text \<open>Postflop the rule holds: the fold is rejected and nothing changes.\<close>

lemma postflop_fold_rejected:
  "phase (street s) \<noteq> Preflop \<Longrightarrow> canCheck s pos \<Longrightarrow>
   threw (addPostflopAction pos Fold betSz s) \<and> stateAfter (addPostflopAction pos Fold betSz s) = s"
  by (auto simp: addPostflopAction_def recordAction_def threw_def stateAfter_def Let_def canCheck_def
           split: if_splits)

subsection \<open>The big blind's option\<close>




end
